theory Spec2Isabelle
  imports Main
begin

section \<open>Python values and exceptions\<close>

text \<open>
  The module is Python 2 code. Its string arguments are either byte strings (\<open>str\<close>, the
  same type as \<open>bytes\<close>) or text (\<open>unicode\<close>); every other object is rejected by
  \<open>normalize\<close>. A byte string is a \<open>string\<close> (a list of 8-bit characters), a text a list
  of code points, any other object is represented by the name of its class, which is all
  the code reads of it. Objects of class \<open>bytearray\<close> are not part of this model.
  Python's integers are unbounded: \<open>int\<close>.
\<close>

datatype pyobj = Str string | Unicode "nat list" | Object string

datatype key = IntKey int | StrKey string

text \<open>
  An exception is its class together with its argument. The module raises \<open>ValueError\<close>
  and \<open>TypeError\<close> itself; a dictionary lookup raises \<open>KeyError\<close> on a missing key and
  indexing an empty string raises \<open>IndexError\<close>.
\<close>

datatype exc = ValueError string | TypeError string | KeyError key | IndexError string

datatype exc_class = ValueError_class | TypeError_class | KeyError_class | IndexError_class

fun class_of :: "exc \<Rightarrow> exc_class" where
  "class_of (ValueError m) = ValueError_class"
| "class_of (TypeError m) = TypeError_class"
| "class_of (KeyError k) = KeyError_class"
| "class_of (IndexError m) = IndexError_class"

subsection \<open>String formatting\<close>

definition quote :: char where
  "quote = CHR 0x27"

fun str_nat :: "nat \<Rightarrow> string" where
  "str_nat n = (if n < 10 then [char_of (48 + n)]
                else str_nat (n div 10) @ [char_of (48 + n mod 10)])"

declare str_nat.simps [simp del]

definition str_int :: "int \<Rightarrow> string" where
  \<comment> \<open>\<open>'%d' % number\<close>\<close>
  "str_int i = (if i < 0 then CHR ''-'' # str_nat (nat (- i)) else str_nat (nat i))"

section \<open>The constant tables\<close>

definition symbols :: string where
  "symbols = ''0123456789ABCDEFGHJKMNPQRSTVWXYZ''"

definition check_symbols :: string where
  "check_symbols = ''*~$=U''"

definition enumerate_py :: "'a list \<Rightarrow> (int \<times> 'a) list" where
  "enumerate_py xs = zip (map int [0..<length xs]) xs"

definition dict_of :: "('k \<times> 'v) list \<Rightarrow> ('k \<rightharpoonup> 'v)" where
  \<comment> \<open>a dict comprehension: a later pair with the same key replaces an earlier one\<close>
  "dict_of kvs = map_of (rev kvs)"

definition encode_symbols :: "int \<rightharpoonup> char" where
  "encode_symbols = dict_of (map (\<lambda>(i, ch). (i, ch)) (enumerate_py (symbols @ check_symbols)))"

definition decode_symbols :: "char \<rightharpoonup> int" where
  "decode_symbols = dict_of (map (\<lambda>(i, ch). (ch, i)) (enumerate_py (symbols @ check_symbols)))"

definition maketrans :: "string \<Rightarrow> string \<Rightarrow> (char \<Rightarrow> char)" where
  \<comment> \<open>\<open>string.maketrans\<close>: the identity table, overwritten at each character of \<open>frm\<close>\<close>
  "maketrans frm to = (\<lambda>c. case dict_of (zip frm to) c of Some d \<Rightarrow> d | None \<Rightarrow> c)"

definition normalize_symbols :: "char \<Rightarrow> char" where
  "normalize_symbols = maketrans ''IiLlOo'' ''111100''"

definition base :: int where
  "base = int (length symbols)"

definition check_base :: int where
  "check_base = int (length (symbols @ check_symbols))"

subsection \<open>The validity pattern\<close>

text \<open>
  \<open>valid_symbols\<close> is the compiled regular expression
  \<^verbatim>\<open>^[0123456789ABCDEFGHJKMNPQRSTVWXYZ]+[\*\~\$\=U]?$\<close> and the code applies
  \<open>valid_symbols.match\<close> to the whole string. The two character classes are disjoint, so
  the greedy run of the first class is the only one that can be followed by a match of
  the rest. Without the \<open>MULTILINE\<close> flag, Python's \<open>$\<close> matches at the end of the string
  and also just before a line feed that is the last character of the string.
\<close>

definition newline :: char where
  "newline = CHR 0x0A"

definition at_dollar :: "string \<Rightarrow> bool" where
  "at_dollar rest \<longleftrightarrow> rest = [] \<or> rest = [newline]"

definition valid_symbols_match :: "string \<Rightarrow> bool" where
  "valid_symbols_match s =
     (let run = takeWhile (\<lambda>c. c \<in> set symbols) s;
          rest = dropWhile (\<lambda>c. c \<in> set symbols) s
      in run \<noteq> [] \<and>
         (case rest of
            [] \<Rightarrow> True
          | c # rest' \<Rightarrow> (c \<in> set check_symbols \<and> at_dollar rest') \<or> at_dollar rest))"

section \<open>The string methods used\<close>

definition translate :: "(char \<Rightarrow> char) \<Rightarrow> string \<Rightarrow> string \<Rightarrow> string" where
  \<comment> \<open>\<open>s.translate(table, deletechars)\<close>: delete, then map through the table\<close>
  "translate table deletechars s = map table (filter (\<lambda>c. c \<notin> set deletechars) s)"

definition upper_char :: "char \<Rightarrow> char" where
  "upper_char c = (if (97::nat) \<le> of_char c \<and> of_char c \<le> (122::nat)
                   then char_of (of_char c - (32::nat)) else c)"

definition upper :: "string \<Rightarrow> string" where
  \<comment> \<open>\<open>str.upper\<close> in the default C locale: only \<open>a\<close> to \<open>z\<close> change\<close>
  "upper s = map upper_char s"

definition encode_ascii :: "nat list \<Rightarrow> string option" where
  \<comment> \<open>\<open>u.encode('ascii')\<close>; \<open>None\<close> stands for \<open>UnicodeEncodeError\<close>\<close>
  "encode_ascii u = (if list_all (\<lambda>cp. cp < 128) u then Some (map char_of u) else None)"

section \<open>normalize\<close>

definition to_bytes :: "pyobj \<Rightarrow> exc + string" where
  "to_bytes symbol_string =
     (case symbol_string of
        Str s \<Rightarrow> Inr s
      | Unicode u \<Rightarrow>
          (case encode_ascii u of
             Some s \<Rightarrow> Inr s
           | None \<Rightarrow> Inl (ValueError ''string should only contain ASCII characters''))
      | Object cls \<Rightarrow> Inl (TypeError (''string should be bytes or ASCII, not '' @ cls)))"

definition transform :: "string \<Rightarrow> string" where
  "transform symbol_string = upper (translate normalize_symbols ''-'' symbol_string)"

definition invalid_characters :: "string \<Rightarrow> exc" where
  "invalid_characters string =
     ValueError (''string '' @ [quote] @ string @ [quote] @ '' contains invalid characters'')"

definition requires_normalization :: "string \<Rightarrow> exc" where
  "requires_normalization symbol_string =
     ValueError (''string '' @ [quote] @ symbol_string @ [quote] @ '' requires normalization'')"

definition normalize :: "pyobj \<Rightarrow> bool \<Rightarrow> exc + string" where
  "normalize obj strict =
     (case to_bytes obj of
        Inl e \<Rightarrow> Inl e
      | Inr symbol_string \<Rightarrow>
          (let string = transform symbol_string
           in if \<not> valid_symbols_match string then Inl (invalid_characters string)
              else if strict \<and> string \<noteq> symbol_string
                   then Inl (requires_normalization symbol_string)
              else Inr string))"

section \<open>encode\<close>

text \<open>
  The argument is an integer, on which the conversion \<open>int(number)\<close> at the start of
  \<open>encode\<close> is the identity. Python's \<open>%\<close> and \<open>//\<close> with a positive divisor are \<open>mod\<close>
  and \<open>div\<close> on \<open>int\<close>. The \<open>while\<close> loop is \<open>encode_loop\<close>, started with the empty string.
\<close>

definition not_positive :: "int \<Rightarrow> exc" where
  "not_positive number =
     ValueError (''number '' @ [quote] @ str_int number @ [quote] @ '' is not a positive integer'')"

definition lookup_encode :: "int \<Rightarrow> exc + char" where
  \<comment> \<open>\<open>encode_symbols[i]\<close>\<close>
  "lookup_encode i = (case encode_symbols i of None \<Rightarrow> Inl (KeyError (IntKey i)) | Some ch \<Rightarrow> Inr ch)"

function encode_loop :: "int \<Rightarrow> string \<Rightarrow> exc + string" where
  "encode_loop number symbol_string =
     (if number > 0
      then (case lookup_encode (number mod base) of
              Inl e \<Rightarrow> Inl e
            | Inr ch \<Rightarrow> encode_loop (number div base) (ch # symbol_string))
      else Inr symbol_string)"
  by pat_completeness auto
termination
  by (relation "measure (\<lambda>(number, symbol_string). nat number)")
     (auto simp: base_def symbols_def intro: int_div_less_self)

declare encode_loop.simps [simp del]

definition encode :: "int \<Rightarrow> bool \<Rightarrow> exc + string" where
  "encode number checksum =
     (if number < 0 then Inl (not_positive number)
      else (case (if checksum
                  then (case lookup_encode (number mod check_base) of
                          Inl e \<Rightarrow> Inl e | Inr ch \<Rightarrow> Inr [ch])
                  else Inr [])
            of Inl e \<Rightarrow> Inl e
             | Inr check_symbol \<Rightarrow>
                 if number = 0 then Inr (''0'' @ check_symbol)
                 else (case encode_loop number [] of
                         Inl e \<Rightarrow> Inl e
                       | Inr symbol_string \<Rightarrow> Inr (symbol_string @ check_symbol))))"

section \<open>decode\<close>

text \<open>
  The \<open>for\<close> loop over the symbols is \<open>decode_loop\<close>. With \<open>checksum=True\<close> the string is
  split first (\<open>symbol_string[:-1]\<close> and \<open>symbol_string[-1]\<close>), the loop runs over the body,
  and the check symbol is looked up only after the loop.
\<close>

definition lookup_decode :: "char \<Rightarrow> exc + int" where
  \<comment> \<open>\<open>decode_symbols[symbol]\<close>\<close>
  "lookup_decode symbol =
     (case decode_symbols symbol of None \<Rightarrow> Inl (KeyError (StrKey [symbol])) | Some v \<Rightarrow> Inr v)"

fun decode_loop :: "int \<Rightarrow> string \<Rightarrow> exc + int" where
  "decode_loop number [] = Inr number"
| "decode_loop number (symbol # rest) =
     (case lookup_decode symbol of
        Inl e \<Rightarrow> Inl e
      | Inr v \<Rightarrow> decode_loop (number * base + v) rest)"

definition invalid_check_symbol :: "char \<Rightarrow> string \<Rightarrow> exc" where
  "invalid_check_symbol check_symbol symbol_string =
     ValueError (''invalid check symbol '' @ [quote] @ [check_symbol] @ [quote] @
                 '' for string '' @ [quote] @ symbol_string @ [quote])"

definition decode :: "pyobj \<Rightarrow> bool \<Rightarrow> bool \<Rightarrow> exc + int" where
  "decode obj checksum strict =
     (case normalize obj strict of
        Inl e \<Rightarrow> Inl e
      | Inr normalized \<Rightarrow>
          if checksum
          then (if normalized = [] then Inl (IndexError ''string index out of range'')
                else (let symbol_string = butlast normalized;
                          check_symbol = last normalized
                      in case decode_loop 0 symbol_string of
                           Inl e \<Rightarrow> Inl e
                         | Inr number \<Rightarrow>
                             (case lookup_decode check_symbol of
                                Inl e \<Rightarrow> Inl e
                              | Inr check_value \<Rightarrow>
                                  if check_value \<noteq> number mod check_base
                                  then Inl (invalid_check_symbol check_symbol symbol_string)
                                  else Inr number)))
          else decode_loop 0 normalized)"

section \<open>Positional notation\<close>

text \<open>
  The value of a list of base-32 digits, most significant digit first, and what it means
  for such a list to be the expansion of a number: every digit is below 32, there is at
  least one digit, the first digit is not zero, and the digits have the number as value.
\<close>

fun pos_value :: "nat list \<Rightarrow> int" where
  "pos_value [] = 0"
| "pos_value (d # ds) = int d * 32 ^ length ds + pos_value ds"

definition is_base32_expansion :: "nat list \<Rightarrow> int \<Rightarrow> bool" where
  "is_base32_expansion ds n \<longleftrightarrow>
     ds \<noteq> [] \<and> list_all (\<lambda>d. d < 32) ds \<and> hd ds \<noteq> 0 \<and> pos_value ds = n"

section \<open>The validity pattern of the specification\<close>

text \<open>
  The specification calls a string valid when it consists of one or more characters of the
  32-symbol alphabet, optionally followed by exactly one check symbol. \<open>chomp\<close> removes a
  final line feed, which relates this pattern to the regular expression of the code.
\<close>

definition validity_pattern :: "string \<Rightarrow> bool" where
  "validity_pattern s =
     (let body = (if s \<noteq> [] \<and> last s \<in> set check_symbols then butlast s else s)
      in body \<noteq> [] \<and> list_all (\<lambda>c. c \<in> set symbols) body)"

definition chomp :: "string \<Rightarrow> string" where
  "chomp s = (if s \<noteq> [] \<and> last s = newline then butlast s else s)"

text \<open>
  The value of a symbol is its position in the 37-symbol table (37 for a character that is
  not in the table); the value of a string is positional, base 32, most significant
  symbol first.
\<close>

definition symbol_value :: "char \<Rightarrow> int" where
  "symbol_value c = int (length (takeWhile (\<lambda>x. x \<noteq> c) (symbols @ check_symbols)))"

fun string_value :: "string \<Rightarrow> int" where
  "string_value [] = 0"
| "string_value (c # cs) = symbol_value c * 32 ^ length cs + string_value cs"

text \<open>
  An input is free of line feeds when it has no byte string, or when the transformed byte
  string contains no line feed.
\<close>

definition line_feed_free :: "pyobj \<Rightarrow> bool" where
  "line_feed_free obj =
     (case to_bytes obj of Inl e \<Rightarrow> True | Inr s \<Rightarrow> newline \<notin> set (transform s))"

section \<open>Facts about the tables\<close>

lemma dict_of_distinct: "distinct (map fst kvs) \<Longrightarrow> dict_of kvs = map_of kvs"
  unfolding dict_of_def
  by (subst map_of_inject_set) (simp_all add: rev_map [symmetric])

lemma length_symbols: "length symbols = 32"
  by (simp add: symbols_def)

lemma length_check_symbols: "length check_symbols = 5"
  by (simp add: check_symbols_def)

lemma distinct_alphabet: "distinct (symbols @ check_symbols)"
  by (simp add: symbols_def check_symbols_def)

lemma base_eq: "base = 32"
  by (simp add: base_def length_symbols)

lemma check_base_eq: "check_base = 37"
  by (simp add: check_base_def length_symbols length_check_symbols)

lemma distinct_map_int: "distinct (map int [0..<n])"
  by (simp add: distinct_map inj_on_def)

lemma encode_symbols_eq:
  "encode_symbols = map_of (zip (map int [0..<37]) (symbols @ check_symbols))"
proof -
  have "map fst (enumerate_py (symbols @ check_symbols)) = map int [0..<37]"
    by (simp add: enumerate_py_def length_symbols length_check_symbols)
  then have "distinct (map fst (enumerate_py (symbols @ check_symbols)))"
    by (simp only: distinct_map_int)
  then show ?thesis
    by (simp add: encode_symbols_def dict_of_distinct enumerate_py_def length_symbols length_check_symbols)
qed

lemma decode_symbols_eq:
  "decode_symbols = map_of (zip (symbols @ check_symbols) (map int [0..<37]))"
proof -
  have sw: "map (\<lambda>(i, ch). (ch, i)) (enumerate_py (symbols @ check_symbols)) =
            zip (symbols @ check_symbols) (map int [0..<37])"
    unfolding enumerate_py_def
    by (subst zip_commute) (simp add: length_symbols length_check_symbols)
  have "map fst (zip (symbols @ check_symbols) (map int [0..<37])) = symbols @ check_symbols"
    by (simp add: length_symbols length_check_symbols)
  then have "distinct (map fst (zip (symbols @ check_symbols) (map int [0..<37])))"
    by (simp only: distinct_alphabet)
  then show ?thesis
    by (simp only: decode_symbols_def sw dict_of_distinct)
qed

lemma length_alphabet: "length (symbols @ check_symbols) = 37"
  by (simp add: length_symbols length_check_symbols)

lemma encode_symbols_nth:
  assumes "i < 37"
  shows "encode_symbols (int i) = Some ((symbols @ check_symbols) ! i)"
proof -
  have len: "length (map int [0..<37]) = length (symbols @ check_symbols)"
    by (simp only: length_alphabet length_map length_upt)
  have bound: "i < length (symbols @ check_symbols)"
    using assms by (simp only: length_alphabet)
  have "map_of (zip (map int [0..<37]) (symbols @ check_symbols)) (map int [0..<37] ! i)
        = Some ((symbols @ check_symbols) ! i)"
    by (rule map_of_zip_nth [OF len distinct_map_int bound])
  moreover have "map int [0..<37] ! i = int i"
    using assms by simp
  ultimately show ?thesis
    by (simp only: encode_symbols_eq)
qed

lemma decode_symbols_nth:
  assumes "i < 37"
  shows "decode_symbols ((symbols @ check_symbols) ! i) = Some (int i)"
proof -
  have len: "length (symbols @ check_symbols) = length (map int [0..<37])"
    by (simp only: length_alphabet length_map length_upt)
  have bound: "i < length (map int [0..<37])"
    using assms by simp
  have "map_of (zip (symbols @ check_symbols) (map int [0..<37])) ((symbols @ check_symbols) ! i)
        = Some (map int [0..<37] ! i)"
    by (rule map_of_zip_nth [OF len distinct_alphabet bound])
  moreover have "map int [0..<37] ! i = int i"
    using assms by simp
  ultimately show ?thesis
    by (simp only: decode_symbols_eq)
qed

lemma decode_symbols_None:
  assumes "c \<notin> set (symbols @ check_symbols)"
  shows "decode_symbols c = None"
proof -
  have "map fst (zip (symbols @ check_symbols) (map int [0..<37])) = symbols @ check_symbols"
    by (simp add: length_symbols length_check_symbols)
  then have "fst ` set (zip (symbols @ check_symbols) (map int [0..<37]))
             = set (symbols @ check_symbols)"
    by (metis set_map)
  with assms show ?thesis
    unfolding decode_symbols_eq map_of_eq_None_iff by blast
qed

lemma decode_symbols_Some_iff:
  "decode_symbols c = Some v \<longleftrightarrow>
     (\<exists>i<37. v = int i \<and> c = (symbols @ check_symbols) ! i)"
proof
  assume h: "decode_symbols c = Some v"
  then have "c \<in> set (symbols @ check_symbols)"
    using decode_symbols_None by fastforce
  then obtain i where "i < length (symbols @ check_symbols)" "(symbols @ check_symbols) ! i = c"
    unfolding in_set_conv_nth by blast
  then have i: "i < 37" "c = (symbols @ check_symbols) ! i"
    by (simp_all add: length_symbols length_check_symbols)
  with h decode_symbols_nth [of i] show "\<exists>i<37. v = int i \<and> c = (symbols @ check_symbols) ! i"
    by auto
next
  assume "\<exists>i<37. v = int i \<and> c = (symbols @ check_symbols) ! i"
  then show "decode_symbols c = Some v"
    using decode_symbols_nth by auto
qed

section \<open>Zero\<close>

text \<open>
  C5: \<open>encode(0)\<close> returns \<open>"0"\<close> and \<open>encode(0, checksum=True)\<close> returns \<open>"00"\<close>:
  the check symbol of zero is the symbol of \<open>0 mod 37 = 0\<close>.
\<close>

theorem encode_zero:
  "encode 0 False = Inr ''0'' \<and> encode 0 True = Inr ''00''"
proof -
  have "encode_symbols 0 = Some (CHR ''0'')"
    using encode_symbols_nth [of 0] by (simp add: symbols_def)
  then show ?thesis
    by (simp add: encode_def lookup_encode_def check_base_eq)
qed

section \<open>The two loops\<close>

lemma pos_value_snoc: "pos_value (ds @ [d]) = pos_value ds * 32 + int d"
  by (induction ds) (simp_all add: algebra_simps)

lemma nth_alphabet_symbols: "i < 32 \<Longrightarrow> (symbols @ check_symbols) ! i = symbols ! i"
  by (simp add: nth_append length_symbols)

lemma lookup_encode_ok:
  assumes "0 \<le> r" "r < 37"
  shows "lookup_encode r = Inr ((symbols @ check_symbols) ! nat r)"
proof -
  have "encode_symbols (int (nat r)) = Some ((symbols @ check_symbols) ! nat r)"
    using assms by (intro encode_symbols_nth) simp
  with assms show ?thesis
    by (simp add: lookup_encode_def)
qed

lemma lookup_decode_nth:
  "i < 37 \<Longrightarrow> lookup_decode ((symbols @ check_symbols) ! i) = Inr (int i)"
  by (simp add: lookup_decode_def decode_symbols_nth)

lemma lookup_decode_symbol:
  "d < 32 \<Longrightarrow> lookup_decode (symbols ! d) = Inr (int d)"
  using lookup_decode_nth [of d] by (simp add: nth_alphabet_symbols)

lemma encode_loop_digits:
  "0 \<le> n \<Longrightarrow>
   \<exists>ds. encode_loop n acc = Inr (map (\<lambda>d. symbols ! d) ds @ acc) \<and>
        list_all (\<lambda>d. d < 32) ds \<and> pos_value ds = n \<and>
        (n = 0 \<longrightarrow> ds = []) \<and> (0 < n \<longrightarrow> ds \<noteq> [] \<and> hd ds \<noteq> 0)"
proof (induction n acc rule: encode_loop.induct)
  case (1 number symbol_string)
  show ?case
  proof (cases "0 < number")
    case False
    with "1.prems" have "number = 0" by simp
    then have "encode_loop number symbol_string = Inr (map (\<lambda>d. symbols ! d) [] @ symbol_string)"
      by (simp add: encode_loop.simps)
    with \<open>number = 0\<close> show ?thesis
      by (intro exI [of _ "[]"]) simp
  next
    case True
    define r where "r = number mod 32"
    define q where "q = number div 32"
    have r: "0 \<le> r" "r < 32" and q: "0 \<le> q" and nq: "number = q * 32 + r"
      using True by (simp_all add: r_def q_def)
    have look: "lookup_encode (number mod base) = Inr (symbols ! nat r)"
      using lookup_encode_ok [of r] r nth_alphabet_symbols [of "nat r"]
      by (simp add: base_eq r_def)
    from "1.IH" [OF True look] q
    obtain ds where ds:
      "encode_loop q (symbols ! nat r # symbol_string)
         = Inr (map (\<lambda>d. symbols ! d) ds @ symbols ! nat r # symbol_string)"
      "list_all (\<lambda>d. d < 32) ds" "pos_value ds = q"
      "q = 0 \<longrightarrow> ds = []" "0 < q \<longrightarrow> ds \<noteq> [] \<and> hd ds \<noteq> 0"
      by (auto simp: base_eq q_def)
    have step: "encode_loop number symbol_string
                 = encode_loop q (symbols ! nat r # symbol_string)"
      using True look by (subst encode_loop.simps) (simp add: base_eq q_def)
    have "hd (ds @ [nat r]) \<noteq> 0"
    proof (cases "q = 0")
      case True
      with ds nq \<open>0 < number\<close> show ?thesis by simp
    next
      case False
      with q ds show ?thesis by simp
    qed
    then have h: "0 < number \<longrightarrow> ds @ [nat r] \<noteq> [] \<and> hd (ds @ [nat r]) \<noteq> 0"
      by simp
    have a: "encode_loop number symbol_string
              = Inr (map (\<lambda>d. symbols ! d) (ds @ [nat r]) @ symbol_string)"
      using step ds(1) by simp
    have b: "list_all (\<lambda>d. d < 32) (ds @ [nat r])"
      using ds(2) r by simp
    have c: "pos_value (ds @ [nat r]) = number"
      using ds(3) r nq by (simp add: pos_value_snoc)
    have d: "number = 0 \<longrightarrow> ds @ [nat r] = []"
      using True by simp
    from a b c d h show ?thesis
      by blast
  qed
qed

lemma decode_loop_digits:
  "list_all (\<lambda>d. d < 32) ds \<Longrightarrow>
   decode_loop acc (map (\<lambda>d. symbols ! d) ds) = Inr (acc * 32 ^ length ds + pos_value ds)"
proof (induction ds arbitrary: acc)
  case Nil
  then show ?case by simp
next
  case (Cons d ds)
  then show ?case
    by (simp add: lookup_decode_symbol base_eq algebra_simps)
qed

section \<open>Encoding a positive number\<close>

text \<open>
  C4: for every integer \<open>n > 0\<close>, \<open>encode(n)\<close> is the base-32 expansion of \<open>n\<close>, most
  significant digit first, written in the 32-symbol alphabet, with no leading zero digit;
  with \<open>checksum=True\<close> the character of \<open>n mod 37\<close> in the 37-symbol table, taken from
  the number as it was passed in, is appended as the last character.
\<close>

theorem encode_positive:
  assumes "0 < n"
  shows "\<exists>ds. is_base32_expansion ds n \<and>
              encode n False = Inr (map (\<lambda>d. symbols ! d) ds) \<and>
              encode n True = Inr (map (\<lambda>d. symbols ! d) ds @
                                   [(symbols @ check_symbols) ! nat (n mod 37)])"
proof -
  from assms encode_loop_digits [of n "[]"]
  obtain ds where ds: "encode_loop n [] = Inr (map (\<lambda>d. symbols ! d) ds)"
    "list_all (\<lambda>d. d < 32) ds" "pos_value ds = n" "ds \<noteq> []" "hd ds \<noteq> 0"
    by auto
  have "lookup_encode (n mod check_base) = Inr ((symbols @ check_symbols) ! nat (n mod 37))"
    using lookup_encode_ok [of "n mod 37"] by (simp add: check_base_eq)
  with ds assms show ?thesis
    by (intro exI [of _ ds]) (simp add: is_base32_expansion_def encode_def)
qed

theorem encode_positive_witness:
  "(0::int) < 33 \<and>
   (\<exists>ds. is_base32_expansion ds 33 \<and>
         encode 33 False = Inr (map (\<lambda>d. symbols ! d) ds) \<and>
         encode 33 True = Inr (map (\<lambda>d. symbols ! d) ds @
                               [(symbols @ check_symbols) ! nat (33 mod 37)]))"
  using encode_positive [of 33] by simp

section \<open>The regular expression and the transformation\<close>

lemma symbol_not_check: "c \<in> set symbols \<Longrightarrow> c \<notin> set check_symbols"
  by (auto simp: symbols_def check_symbols_def)

lemma symbol_not_newline: "c \<in> set symbols \<Longrightarrow> c \<noteq> newline"
  by (auto simp: symbols_def newline_def)

lemma check_not_newline: "c \<in> set check_symbols \<Longrightarrow> c \<noteq> newline"
  by (auto simp: check_symbols_def newline_def)

lemma normalize_symbols_simps:
  "normalize_symbols c =
     (if c = CHR ''I'' \<or> c = CHR ''i'' \<or> c = CHR ''L'' \<or> c = CHR ''l'' then CHR ''1''
      else if c = CHR ''O'' \<or> c = CHR ''o'' then CHR ''0'' else c)"
  by (simp add: normalize_symbols_def maketrans_def dict_of_def)

lemma all_fixed:
  "list_all (\<lambda>c. c \<noteq> CHR ''-'' \<and> upper_char (normalize_symbols c) = c)
     (newline # symbols @ check_symbols)"
  by (simp add: symbols_def check_symbols_def newline_def normalize_symbols_simps upper_char_def)

lemma char_fixed:
  assumes "c \<in> insert newline (set symbols \<union> set check_symbols)"
  shows "c \<noteq> CHR ''-'' \<and> upper_char (normalize_symbols c) = c"
proof -
  from assms have "c \<in> set (newline # symbols @ check_symbols)"
    by simp
  with all_fixed show ?thesis
    unfolding list_all_iff by blast
qed

lemma transform_fixed:
  assumes "set s \<subseteq> insert newline (set symbols \<union> set check_symbols)"
  shows "transform s = s"
proof -
  have fixed: "c \<noteq> CHR ''-'' \<and> upper_char (normalize_symbols c) = c" if "c \<in> set s" for c
    using that assms by (intro char_fixed) blast
  have keep: "filter (\<lambda>c. c \<notin> set ''-'') s = s"
    using fixed by (intro filter_True) simp
  have "map (\<lambda>c. upper_char (normalize_symbols c)) s = s"
    using fixed by (intro map_idI) simp
  with keep show ?thesis
    by (simp add: transform_def upper_def translate_def comp_def)
qed

lemma run_split:
  assumes "list_all (\<lambda>c. c \<in> set symbols) run" "rest = [] \<or> hd rest \<notin> set symbols"
  shows "takeWhile (\<lambda>c. c \<in> set symbols) (run @ rest) = run"
    and "dropWhile (\<lambda>c. c \<in> set symbols) (run @ rest) = rest"
proof -
  have a: "\<forall>c\<in>set run. c \<in> set symbols"
    using assms(1) by (simp add: list_all_iff)
  have t: "takeWhile (\<lambda>c. c \<in> set symbols) rest = []"
    using assms(2) by (cases rest) auto
  have d: "dropWhile (\<lambda>c. c \<in> set symbols) rest = rest"
    using assms(2) by (cases rest) auto
  show "takeWhile (\<lambda>c. c \<in> set symbols) (run @ rest) = run"
    using a t by (simp add: takeWhile_append2)
  show "dropWhile (\<lambda>c. c \<in> set symbols) (run @ rest) = rest"
    using a d by (simp add: dropWhile_append2)
qed

lemma match_run_rest:
  assumes "list_all (\<lambda>c. c \<in> set symbols) run" "rest = [] \<or> hd rest \<notin> set symbols"
  shows "valid_symbols_match (run @ rest) \<longleftrightarrow>
         run \<noteq> [] \<and> (rest = [] \<or> rest = [newline] \<or>
                     (\<exists>c\<in>set check_symbols. rest = [c] \<or> rest = [c, newline]))"
  unfolding valid_symbols_match_def run_split [OF assms] Let_def
  by (cases rest) (auto simp: at_dollar_def)

lemma match_decompose:
  "\<exists>run rest. s = run @ rest \<and> list_all (\<lambda>c. c \<in> set symbols) run \<and>
              (rest = [] \<or> hd rest \<notin> set symbols)"
proof (intro exI conjI)
  show "s = takeWhile (\<lambda>c. c \<in> set symbols) s @ dropWhile (\<lambda>c. c \<in> set symbols) s"
    by simp
  show "list_all (\<lambda>c. c \<in> set symbols) (takeWhile (\<lambda>c. c \<in> set symbols) s)"
    by (auto simp: list_all_iff dest: set_takeWhileD)
  show "dropWhile (\<lambda>c. c \<in> set symbols) s = [] \<or>
        hd (dropWhile (\<lambda>c. c \<in> set symbols) s) \<notin> set symbols"
    using hd_dropWhile [of "\<lambda>c. c \<in> set symbols" s] by blast
qed

lemma pattern_run_rest:
  assumes "list_all (\<lambda>c. c \<in> set symbols) run" "rest = [] \<or> hd rest \<notin> set symbols"
  shows "validity_pattern (run @ rest) \<longleftrightarrow>
         run \<noteq> [] \<and> (rest = [] \<or> (\<exists>c\<in>set check_symbols. rest = [c]))"
proof (cases rest rule: rev_cases)
  case Nil
  then show ?thesis
    using assms(1) symbol_not_check [of "last run"]
    by (auto simp: validity_pattern_def list_all_iff)
next
  case (snoc front c)
  show ?thesis
  proof (cases "c \<in> set check_symbols")
    case True
    have "list_all (\<lambda>c. c \<in> set symbols) (run @ front) \<longleftrightarrow> front = []"
      using assms snoc by (cases front) (auto simp: list_all_iff)
    with True snoc assms(1) show ?thesis
      by (auto simp: validity_pattern_def butlast_append)
  next
    case False
    have "\<not> list_all (\<lambda>c. c \<in> set symbols) (run @ front @ [c])"
      using assms(2) snoc by (cases front) (auto simp: list_all_iff)
    with False snoc show ?thesis
      by (auto simp: validity_pattern_def)
  qed
qed

lemma chomp_run_rest:
  assumes "list_all (\<lambda>c. c \<in> set symbols) run"
  shows "chomp (run @ rest) = run @ chomp rest"
proof (cases "rest = []")
  case True
  have "last run \<noteq> newline" if "run \<noteq> []"
    using that assms symbol_not_newline [of "last run"] last_in_set [of run]
    by (auto simp: list_all_iff)
  with True show ?thesis
    by (auto simp: chomp_def)
next
  case False
  then show ?thesis
    by (simp add: chomp_def butlast_append)
qed

lemma valid_symbols_match_iff:
  "valid_symbols_match s \<longleftrightarrow> validity_pattern (chomp s)"
proof -
  obtain run rest where s: "s = run @ rest" and run: "list_all (\<lambda>c. c \<in> set symbols) run"
    and rest: "rest = [] \<or> hd rest \<notin> set symbols"
    using match_decompose by blast
  have rest': "chomp rest = [] \<or> hd (chomp rest) \<notin> set symbols"
    using rest symbol_not_newline
    by (cases rest) (auto simp: chomp_def split: if_splits)
  have "(rest = [] \<or> rest = [newline] \<or> (\<exists>c\<in>set check_symbols. rest = [c] \<or> rest = [c, newline]))
        \<longleftrightarrow> (chomp rest = [] \<or> (\<exists>c\<in>set check_symbols. chomp rest = [c]))"
    using check_not_newline
    by (cases rest rule: rev_cases) (auto simp: chomp_def)
  then show ?thesis
    unfolding s chomp_run_rest [OF run] match_run_rest [OF run rest]
      pattern_run_rest [OF run rest']
    by simp
qed

section \<open>Normalising\<close>

lemma normalize_Str:
  "normalize (Str s) strict =
     (if \<not> valid_symbols_match (transform s) then Inl (invalid_characters (transform s))
      else if strict \<and> transform s \<noteq> s then Inl (requires_normalization s)
      else Inr (transform s))"
  by (simp add: normalize_def to_bytes_def Let_def)

lemma normalize_InrD:
  assumes "normalize obj strict = Inr t"
  shows "\<exists>s. to_bytes obj = Inr s \<and> t = transform s \<and> valid_symbols_match t \<and>
             (strict \<longrightarrow> t = s)"
  using assms by (auto simp: normalize_def Let_def split: sum.splits if_splits)

lemma validity_pattern_chars:
  assumes "validity_pattern u"
  shows "set u \<subseteq> set symbols \<union> set check_symbols"
proof (cases u rule: rev_cases)
  case Nil
  then show ?thesis by simp
next
  case (snoc front c)
  with assms show ?thesis
    by (auto simp: validity_pattern_def Let_def list_all_iff split: if_splits)
qed

lemma set_chomp: "set s \<subseteq> insert newline (set (chomp s))"
  by (cases s rule: rev_cases) (auto simp: chomp_def)

lemma valid_match_chars:
  assumes "valid_symbols_match t"
  shows "set t \<subseteq> insert newline (set symbols \<union> set check_symbols)"
  using assms validity_pattern_chars [of "chomp t"] set_chomp [of t]
  unfolding valid_symbols_match_iff by blast

lemma valid_match_nonempty: "valid_symbols_match t \<Longrightarrow> t \<noteq> []"
  by (auto simp: valid_symbols_match_def)

lemma normalize_fixed:
  assumes "valid_symbols_match t"
  shows "normalize (Str t) strict = Inr t"
  using assms transform_fixed [OF valid_match_chars [OF assms]]
  by (simp add: normalize_Str)

text \<open>
  C9: normalisation is idempotent. Whenever \<open>normalize\<close> returns a string for an input
  (a byte string or a text, with either value of \<open>strict\<close>), normalising that string
  again returns it unchanged, again with either value of \<open>strict\<close>.
\<close>

theorem normalize_idempotent:
  assumes "normalize s strict = Inr t"
  shows "normalize (Str t) strict' = Inr t"
proof -
  from normalize_InrD [OF assms] have "valid_symbols_match t"
    by blast
  then show ?thesis
    by (rule normalize_fixed)
qed

theorem normalize_idempotent_witness:
  "normalize (Unicode [97, 45, 111]) False = Inr ''A0'' \<and>
   normalize (Str ''A0'') False = Inr ''A0''"
proof -
  have h: "normalize (Unicode [97, 45, 111]) False = Inr ''A0''"
    by code_simp
  from normalize_idempotent [OF h] h show ?thesis
    by simp
qed

section \<open>The value of a symbol string\<close>

lemma symbol_value_nth:
  assumes "i < 37"
  shows "symbol_value ((symbols @ check_symbols) ! i) = int i"
proof -
  let ?xs = "symbols @ check_symbols"
  have len: "i < length ?xs"
    using assms by (simp only: length_alphabet)
  have "takeWhile (\<lambda>x. x \<noteq> ?xs ! i) ?xs = take i ?xs"
  proof (rule takeWhile_eq_take_P_nth)
    fix j assume "j < i" "j < length ?xs"
    with len show "?xs ! j \<noteq> ?xs ! i"
      using distinct_alphabet by (simp add: nth_eq_iff_index_eq del: distinct_append)
  next
    show "\<not> ?xs ! i \<noteq> ?xs ! i" by simp
  qed
  with len show ?thesis
    unfolding symbol_value_def by (simp only: length_take min_def) simp
qed

lemma in_alphabet_nth:
  assumes "c \<in> set (symbols @ check_symbols)"
  shows "\<exists>i<37. c = (symbols @ check_symbols) ! i"
proof -
  from assms obtain i where "i < length (symbols @ check_symbols)" "(symbols @ check_symbols) ! i = c"
    unfolding in_set_conv_nth by blast
  then show ?thesis
    unfolding length_alphabet by blast
qed

lemma in_symbols_nth:
  assumes "c \<in> set symbols"
  shows "\<exists>i<32. c = symbols ! i"
  using assms unfolding in_set_conv_nth length_symbols by blast

lemma lookup_decode_value:
  assumes "c \<in> set (symbols @ check_symbols)"
  shows "lookup_decode c = Inr (symbol_value c)"
  using in_alphabet_nth [OF assms] lookup_decode_nth symbol_value_nth by auto

lemma lookup_decode_missing:
  assumes "c \<notin> set (symbols @ check_symbols)"
  shows "lookup_decode c = Inl (KeyError (StrKey [c]))"
  using decode_symbols_None [OF assms] by (simp add: lookup_decode_def)

lemma symbol_value_bounds:
  "c \<in> set symbols \<Longrightarrow> 0 \<le> symbol_value c \<and> symbol_value c < 32"
  "c \<in> set check_symbols \<Longrightarrow> 32 \<le> symbol_value c \<and> symbol_value c < 37"
proof -
  assume "c \<in> set symbols"
  then obtain i where "i < 32" "c = symbols ! i"
    using in_symbols_nth by blast
  then show "0 \<le> symbol_value c \<and> symbol_value c < 32"
    using symbol_value_nth [of i] nth_alphabet_symbols [of i] by simp
next
  assume "c \<in> set check_symbols"
  then obtain j where j: "j < 5" "c = check_symbols ! j"
    unfolding in_set_conv_nth length_check_symbols by blast
  then have "c = (symbols @ check_symbols) ! (32 + j)"
    by (simp add: nth_append length_symbols)
  with j show "32 \<le> symbol_value c \<and> symbol_value c < 37"
    using symbol_value_nth [of "32 + j"] by simp
qed

lemma decode_loop_value:
  "set s \<subseteq> set (symbols @ check_symbols) \<Longrightarrow>
   decode_loop acc s = Inr (acc * 32 ^ length s + string_value s)"
proof (induction s arbitrary: acc)
  case Nil
  then show ?case by simp
next
  case (Cons c s)
  then have "lookup_decode c = Inr (symbol_value c)"
    by (intro lookup_decode_value) simp
  with Cons show ?case
    by (simp add: base_eq algebra_simps)
qed

lemma string_value_snoc: "string_value (s @ [c]) = string_value s * 32 + symbol_value c"
  by (induction s) (simp_all add: algebra_simps)

lemma string_value_digits:
  "list_all (\<lambda>d. d < 32) ds \<Longrightarrow> string_value (map (\<lambda>d. symbols ! d) ds) = pos_value ds"
proof (induction ds)
  case Nil
  then show ?case by simp
next
  case (Cons d ds)
  then have "symbol_value (symbols ! d) = int d"
    using symbol_value_nth [of d] nth_alphabet_symbols [of d] by simp
  with Cons show ?case by simp
qed

section \<open>Round trip\<close>

lemma digits_are_symbols:
  assumes "list_all (\<lambda>d. d < 32) ds"
  shows "list_all (\<lambda>c. c \<in> set symbols) (map (\<lambda>d. symbols ! d) ds)"
  using assms by (auto simp: list_all_iff length_symbols)

lemma match_symbols:
  assumes "list_all (\<lambda>c. c \<in> set symbols) s" "s \<noteq> []"
  shows "valid_symbols_match s"
  using match_run_rest [of s "[]"] assms by simp

lemma match_symbols_check:
  assumes "list_all (\<lambda>c. c \<in> set symbols) s" "s \<noteq> []" "c \<in> set (symbols @ check_symbols)"
  shows "valid_symbols_match (s @ [c])"
proof (cases "c \<in> set symbols")
  case True
  with assms(1) have "list_all (\<lambda>c. c \<in> set symbols) (s @ [c])"
    by simp
  then show ?thesis
    by (intro match_symbols) simp_all
next
  case False
  with assms(3) have "c \<in> set check_symbols"
    by simp
  with False show ?thesis
    using match_run_rest [of s "[c]"] assms(1,2) by auto
qed

lemma encode_digits:
  assumes "0 \<le> n"
  shows "\<exists>ds. ds \<noteq> [] \<and> list_all (\<lambda>d. d < 32) ds \<and> pos_value ds = n \<and>
              encode n False = Inr (map (\<lambda>d. symbols ! d) ds) \<and>
              encode n True = Inr (map (\<lambda>d. symbols ! d) ds @
                                   [(symbols @ check_symbols) ! nat (n mod 37)])"
proof (cases "n = 0")
  case True
  have z: "symbols ! 0 = CHR ''0''"
    by (simp add: symbols_def)
  have "lookup_encode (0 mod check_base) = Inr ((symbols @ check_symbols) ! 0)"
    using lookup_encode_ok [of 0] by simp
  with True z show ?thesis
    by (intro exI [of _ "[0]"]) (simp add: encode_def)
next
  case False
  with assms encode_loop_digits [of n "[]"]
  obtain ds where ds: "encode_loop n [] = Inr (map (\<lambda>d. symbols ! d) ds)"
    "list_all (\<lambda>d. d < 32) ds" "pos_value ds = n" "ds \<noteq> []"
    by auto
  have "lookup_encode (n mod check_base) = Inr ((symbols @ check_symbols) ! nat (n mod 37))"
    using lookup_encode_ok [of "n mod 37"] by (simp add: check_base_eq)
  with ds assms False show ?thesis
    by (intro exI [of _ ds]) (simp add: encode_def)
qed

lemma decode_plain:
  assumes "valid_symbols_match t" "set t \<subseteq> set (symbols @ check_symbols)"
  shows "decode (Str t) False strict = Inr (string_value t)"
  using decode_loop_value [OF assms(2), of 0] normalize_fixed [OF assms(1)]
  by (simp add: decode_def)

lemma decode_checked:
  assumes "valid_symbols_match (s @ [c])" "set (s @ [c]) \<subseteq> set (symbols @ check_symbols)"
  shows "decode (Str (s @ [c])) True strict =
           (if symbol_value c \<noteq> string_value s mod 37
            then Inl (invalid_check_symbol c s) else Inr (string_value s))"
proof -
  have "decode_loop 0 s = Inr (string_value s)"
    using decode_loop_value [of s 0] assms(2) by simp
  moreover have "lookup_decode c = Inr (symbol_value c)"
    using assms(2) by (intro lookup_decode_value) simp
  ultimately show ?thesis
    using normalize_fixed [OF assms(1)] by (simp add: decode_def check_base_eq)
qed

text \<open>
  C1: for every non-negative integer \<open>n\<close>, decoding \<open>encode(n)\<close> gives \<open>n\<close>, and decoding
  \<open>encode(n, checksum=True)\<close> with \<open>checksum=True\<close> gives \<open>n\<close>. (The result holds for
  either value of \<open>strict\<close>.)
\<close>

theorem decode_encode:
  assumes "0 \<le> n"
  shows "(case encode n False of Inl e \<Rightarrow> Inl e | Inr s \<Rightarrow> decode (Str s) False strict) = Inr n \<and>
         (case encode n True of Inl e \<Rightarrow> Inl e | Inr s \<Rightarrow> decode (Str s) True strict) = Inr n"
proof -
  from encode_digits [OF assms]
  obtain ds where ds: "ds \<noteq> []" "list_all (\<lambda>d. d < 32) ds" "pos_value ds = n"
    and plain: "encode n False = Inr (map (\<lambda>d. symbols ! d) ds)"
    and checked: "encode n True = Inr (map (\<lambda>d. symbols ! d) ds @
                                       [(symbols @ check_symbols) ! nat (n mod 37)])"
    by blast
  let ?s = "map (\<lambda>d. symbols ! d) ds"
  let ?c = "(symbols @ check_symbols) ! nat (n mod 37)"
  have syms: "list_all (\<lambda>c. c \<in> set symbols) ?s"
    by (rule digits_are_symbols [OF ds(2)])
  have ne: "?s \<noteq> []"
    using ds(1) by simp
  have sub: "set ?s \<subseteq> set (symbols @ check_symbols)"
    using syms by (auto simp: list_all_iff)
  have val: "string_value ?s = n"
    using string_value_digits [OF ds(2)] ds(3) by simp
  have c_in: "?c \<in> set (symbols @ check_symbols)"
    using assms by (intro nth_mem) (simp add: length_symbols length_check_symbols)
  have c_val: "symbol_value ?c = n mod 37"
    using symbol_value_nth [of "nat (n mod 37)"] assms by simp
  have a: "decode (Str ?s) False strict = Inr n"
    using decode_plain [OF match_symbols [OF syms ne] sub] val by simp
  have sub': "set (?s @ [?c]) \<subseteq> set (symbols @ check_symbols)"
    using sub c_in by simp
  have b: "decode (Str (?s @ [?c])) True strict = Inr n"
    using decode_checked [OF match_symbols_check [OF syms ne c_in] sub'] val c_val by simp
  from a b plain checked show ?thesis
    by simp
qed

theorem decode_encode_witness:
  "(0::int) \<le> 12345 \<and>
   (case encode 12345 False of Inl e \<Rightarrow> Inl e | Inr s \<Rightarrow> decode (Str s) False False) = Inr 12345 \<and>
   (case encode 12345 True of Inl e \<Rightarrow> Inl e | Inr s \<Rightarrow> decode (Str s) True False) = Inr 12345"
  using decode_encode [of 12345 False] by simp

section \<open>A single character with a checksum\<close>

lemma match_single: "valid_symbols_match [c] \<longleftrightarrow> c \<in> set symbols"
  by (simp add: valid_symbols_match_def)





section \<open>The pattern and a final line feed\<close>

lemma chomp_no_newline: "newline \<notin> set t \<Longrightarrow> chomp t = t"
  by (cases t rule: rev_cases) (auto simp: chomp_def)

lemma match_without_newline:
  "newline \<notin> set t \<Longrightarrow> valid_symbols_match t \<longleftrightarrow> validity_pattern t"
  by (simp add: valid_symbols_match_iff chomp_no_newline)

lemma validity_pattern_no_newline:
  assumes "validity_pattern t"
  shows "newline \<notin> set t"
  using validity_pattern_chars [OF assms] symbol_not_newline check_not_newline by blast

lemma transform_spec:
  "transform s =
     map (\<lambda>c. if c \<in> {CHR ''I'', CHR ''i'', CHR ''L'', CHR ''l''} then CHR ''1''
              else if c \<in> {CHR ''O'', CHR ''o''} then CHR ''0''
              else upper_char c)
         (filter (\<lambda>c. c \<noteq> CHR ''-'') s)"
  by (simp add: transform_def upper_def translate_def normalize_symbols_simps upper_char_def
      cong: map_cong)

lemma normalize_pattern:
  assumes "to_bytes obj = Inr s" "newline \<notin> set (transform s)"
  shows "normalize obj False =
           (if validity_pattern (transform s) then Inr (transform s)
            else Inl (invalid_characters (transform s)))"
  using assms by (simp add: normalize_def match_without_newline)

lemma decode_checksum_pattern:
  assumes "normalize obj strict = Inr t" "newline \<notin> set t"
  shows "decode obj True strict =
           (if symbol_value (last t) \<noteq> string_value (butlast t) mod 37
            then Inl (invalid_check_symbol (last t) (butlast t))
            else Inr (string_value (butlast t)))"
proof -
  from normalize_InrD [OF assms(1)] have m: "valid_symbols_match t"
    by blast
  then have ne: "t \<noteq> []"
    by (rule valid_match_nonempty)
  have sub: "set t \<subseteq> set (symbols @ check_symbols)"
    using valid_match_chars [OF m] assms(2) by auto
  have "set (butlast t) \<subseteq> set (symbols @ check_symbols)"
    using sub by (meson in_set_butlastD subset_iff)
  then have body: "decode_loop 0 (butlast t) = Inr (string_value (butlast t))"
    using decode_loop_value [of "butlast t" 0] by simp
  have "last t \<in> set (symbols @ check_symbols)"
    using sub ne last_in_set by blast
  then have "lookup_decode (last t) = Inr (symbol_value (last t))"
    by (rule lookup_decode_value)
  with body ne assms(1) show ?thesis
    by (simp add: decode_def check_base_eq)
qed

text \<open>
  C6 says that \<open>normalize\<close> succeeds exactly when the transformed string is one or more
  symbols of the 32-symbol alphabet, optionally followed by one check symbol, and fails
  with the invalid-character error otherwise. At the input \<open>"0\n"\<close> the code does not
  fail: the pattern's \<open>$\<close> matches before the final line feed, and the string is returned
  with the line feed in it, although it is not of the form the claim describes.
\<close>

theorem normalize_trailing_newline:
  "normalize (Str [CHR ''0'', newline]) False = Inr [CHR ''0'', newline] \<and>
   \<not> validity_pattern [CHR ''0'', newline]"
  by (simp add: normalize_Str transform_spec valid_symbols_match_def validity_pattern_def
      upper_char_def at_dollar_def newline_def symbols_def check_symbols_def)

text \<open>
  C7 says that \<open>decode\<close> with \<open>checksum=True\<close> either returns the value of the body or
  fails with the check-symbol error, according to the comparison of the body's value
  modulo 37 with the table value of the check character. At the input \<open>"00\n"\<close> the code
  does neither: the line feed accepted by the pattern is taken as the check character,
  and looking it up in \<open>decode_symbols\<close> raises \<open>KeyError\<close>.
\<close>

theorem decode_trailing_newline:
  "normalize (Str [CHR ''0'', CHR ''0'', newline]) False = Inr [CHR ''0'', CHR ''0'', newline] \<and>
   decode (Str [CHR ''0'', CHR ''0'', newline]) True False = Inl (KeyError (StrKey [newline]))"
  by code_simp

section \<open>Strict mode\<close>

lemma invalid_not_requires: "invalid_characters t \<noteq> requires_normalization s"
proof
  assume "invalid_characters t = requires_normalization s"
  then have "last (''string '' @ [quote] @ t @ [quote] @ '' contains invalid characters'')
             = last (''string '' @ [quote] @ s @ [quote] @ '' requires normalization'')"
    by (simp only: invalid_characters_def requires_normalization_def exc.inject)
  then show False
    by (simp del: append.simps)
qed

lemma check_not_requires: "invalid_check_symbol c body \<noteq> requires_normalization s"
  by (simp add: invalid_check_symbol_def requires_normalization_def)

lemma check_not_invalid: "invalid_check_symbol c body \<noteq> invalid_characters t"
  by (simp add: invalid_check_symbol_def invalid_characters_def)

lemma decode_normalize_error:
  "normalize obj strict = Inl e \<Longrightarrow> decode obj checksum strict = Inl e"
  by (simp add: decode_def)

lemma decode_plain_pattern:
  assumes "normalize obj strict = Inr t" "newline \<notin> set t"
  shows "decode obj False strict = Inr (string_value t)"
proof -
  from normalize_InrD [OF assms(1)] have m: "valid_symbols_match t"
    by blast
  have sub: "set t \<subseteq> set (symbols @ check_symbols)"
    using valid_match_chars [OF m] assms(2) by auto
  show ?thesis
    using decode_loop_value [OF sub, of 0] assms(1) by (simp add: decode_def)
qed

lemma decode_loop_error:
  "decode_loop acc s = Inl e \<Longrightarrow> \<exists>c. e = KeyError (StrKey [c])"
proof (induction s arbitrary: acc)
  case Nil
  then show ?case by simp
next
  case (Cons c s)
  then show ?case
    by (auto simp: lookup_decode_def split: option.splits sum.splits)
qed

lemma decode_error_after_normalize:
  assumes "normalize obj strict = Inr t" "decode obj checksum strict = Inl e"
  shows "(\<exists>c. e = KeyError (StrKey [c])) \<or> e = invalid_check_symbol (last t) (butlast t)"
proof -
  from normalize_InrD [OF assms(1)] have "valid_symbols_match t"
    by blast
  then have ne: "t \<noteq> []"
    by (rule valid_match_nonempty)
  show ?thesis
  proof (cases checksum)
    case False
    with assms have "decode_loop 0 t = Inl e"
      by (simp add: decode_def)
    from decode_loop_error [OF this] show ?thesis
      by simp
  next
    case True
    show ?thesis
    proof (cases "decode_loop 0 (butlast t)")
      case (Inl e')
      with True assms ne have "e' = e"
        by (simp add: decode_def)
      with decode_loop_error [OF Inl] show ?thesis
        by simp
    next
      case (Inr number)
      with True assms ne show ?thesis
        by (auto simp: decode_def lookup_decode_def Let_def split: option.splits if_splits)
    qed
  qed
qed

text \<open>
  C8, as amended: with \<open>strict=True\<close>, for an input that is a byte string or an ASCII
  text, \<open>normalize\<close> (and so \<open>decode\<close>) fails with the requires-normalization error exactly
  when the transformed string is accepted by the pattern match of \<open>normalize\<close>
  (\<open>valid_symbols.match\<close>) and differs from the input. When the match rejects the
  transformed string, the failure is the invalid-character error, whether or not the
  string was changed. In particular \<open>decode("o", strict=True)\<close> fails with the
  requires-normalization error.
\<close>

theorem strict_requires_normalization:
  assumes "to_bytes obj = Inr s"
  shows "(normalize obj True = Inl (requires_normalization s)
            \<longleftrightarrow> valid_symbols_match (transform s) \<and> transform s \<noteq> s) \<and>
         (decode obj checksum True = Inl (requires_normalization s)
            \<longleftrightarrow> valid_symbols_match (transform s) \<and> transform s \<noteq> s) \<and>
         (\<not> valid_symbols_match (transform s) \<longrightarrow>
            normalize obj True = Inl (invalid_characters (transform s)) \<and>
            decode obj checksum True = Inl (invalid_characters (transform s))) \<and>
         decode (Str ''o'') False True = Inl (requires_normalization ''o'')"
proof -
  have gen: "(normalize obj' True = Inl (requires_normalization s')
                \<longleftrightarrow> valid_symbols_match (transform s') \<and> transform s' \<noteq> s') \<and>
             (decode obj' checksum' True = Inl (requires_normalization s')
                \<longleftrightarrow> valid_symbols_match (transform s') \<and> transform s' \<noteq> s') \<and>
             (\<not> valid_symbols_match (transform s') \<longrightarrow>
                normalize obj' True = Inl (invalid_characters (transform s')) \<and>
                decode obj' checksum' True = Inl (invalid_characters (transform s')))"
    if b: "to_bytes obj' = Inr s'" for obj' s' checksum'
  proof -
    have n: "normalize obj' True =
               (if \<not> valid_symbols_match (transform s')
                then Inl (invalid_characters (transform s'))
                else if transform s' \<noteq> s' then Inl (requires_normalization s')
                else Inr (transform s'))"
      using b by (simp add: normalize_def Let_def)
    have first: "normalize obj' True = Inl (requires_normalization s')
                   \<longleftrightarrow> valid_symbols_match (transform s') \<and> transform s' \<noteq> s'"
      using n invalid_not_requires by auto
    have second: "decode obj' checksum' True = Inl (requires_normalization s')
                   \<longleftrightarrow> valid_symbols_match (transform s') \<and> transform s' \<noteq> s'"
    proof (cases "normalize obj' True")
      case (Inl e)
      with first decode_normalize_error [OF Inl, of checksum'] show ?thesis
        by simp
    next
      case (Inr t)
      with n have t: "valid_symbols_match (transform s')" "transform s' = s'"
        by (auto split: if_splits)
      have "decode obj' checksum' True \<noteq> Inl (requires_normalization s')"
      proof
        assume "decode obj' checksum' True = Inl (requires_normalization s')"
        from decode_error_after_normalize [OF Inr this] show False
          using check_not_requires [of "last t" "butlast t" s']
          by (auto simp: requires_normalization_def)
      qed
      with t show ?thesis by simp
    qed
    have third: "\<not> valid_symbols_match (transform s') \<longrightarrow>
                   normalize obj' True = Inl (invalid_characters (transform s')) \<and>
                   decode obj' checksum' True = Inl (invalid_characters (transform s'))"
      using n decode_normalize_error [of obj' True "invalid_characters (transform s')" checksum']
      by simp
    from first second third show ?thesis by simp
  qed
  have o: "transform ''o'' = ''0''"
    by (simp add: transform_spec)
  have "to_bytes (Str ''o'') = Inr ''o''"
    by (simp add: to_bytes_def)
  moreover have "valid_symbols_match (transform ''o'')"
    by (simp add: o match_single symbols_def)
  ultimately have "decode (Str ''o'') False True = Inl (requires_normalization ''o'')"
    using gen [of "Str ''o''" "''o''" False] o by simp
  with gen [OF assms] show ?thesis
    by simp
qed

theorem strict_requires_normalization_witness:
  "to_bytes (Unicode [49, 45, 117]) = Inr ''1-u'' \<and>
   valid_symbols_match (transform ''1-u'') \<and> transform ''1-u'' \<noteq> ''1-u'' \<and>
   normalize (Unicode [49, 45, 117]) True = Inl (requires_normalization ''1-u'') \<and>
   decode (Unicode [49, 45, 117]) True True = Inl (requires_normalization ''1-u'')"
proof -
  have t: "transform ''1-u'' = ''1U''"
    by code_simp
  have b: "to_bytes (Unicode [49, 45, 117]) = Inr ''1-u''"
    by code_simp
  have v: "valid_symbols_match (transform ''1-u'')"
    by code_simp
  from strict_requires_normalization [OF b, of True] v t b show ?thesis
    by simp
qed

theorem strict_invalid_counterexample:
  "transform ''a!'' \<noteq> ''a!'' \<and>
   normalize (Str ''a!'') True = Inl (invalid_characters ''A!'') \<and>
   normalize (Str ''a!'') True \<noteq> Inl (requires_normalization ''a!'')"
proof -
  have t: "transform ''a!'' = ''A!''"
    by code_simp
  have "\<not> valid_symbols_match ''A!''"
    by (simp add: valid_symbols_match_def symbols_def check_symbols_def at_dollar_def newline_def)
  with t show ?thesis
    using invalid_not_requires by (simp add: normalize_Str)
qed

section \<open>A check symbol without checksum decoding\<close>

text \<open>
  C2 says that \<open>decode\<close> with \<open>checksum=False\<close> fails with the invalid-character error on
  every string whose normalized form contains a check symbol. At the input \<open>"0U"\<close> the
  code does not fail: the pattern admits the final check symbol whatever the value of
  \<open>checksum\<close>, and the loop reads \<open>U\<close> as a digit of value 36, so that \<open>"0U"\<close> decodes to 36,
  the number that \<open>"14"\<close> decodes to, although the five check symbols are meant for
  checksum values only.
\<close>

theorem decode_unchecked_check_symbol:
  "normalize (Str ''0U'') False = Inr ''0U'' \<and> CHR ''U'' \<in> set check_symbols \<and>
   decode (Str ''0U'') False False = Inr 36 \<and> decode (Str ''14'') False False = Inr 36"
  by code_simp

section \<open>Failures and their exception classes\<close>

lemma encode_InlD:
  assumes "encode n checksum = Inl e"
  shows "n < 0 \<and> e = not_positive n"
proof (cases "n < 0")
  case True
  with assms show ?thesis
    by (simp add: encode_def)
next
  case False
  then have "0 \<le> n" by simp
  from encode_digits [OF this] assms show ?thesis
    by (cases checksum) auto
qed

lemma normalize_InlD:
  assumes "normalize obj strict = Inl e"
  shows "(\<exists>cls. obj = Object cls \<and> e = TypeError (''string should be bytes or ASCII, not '' @ cls)) \<or>
         (\<exists>u. obj = Unicode u \<and> e = ValueError ''string should only contain ASCII characters'') \<or>
         (\<exists>s. to_bytes obj = Inr s \<and>
              (e = invalid_characters (transform s) \<or> strict \<and> e = requires_normalization s))"
  using assms
  by (cases obj)
     (auto simp: normalize_def to_bytes_def Let_def split: option.splits if_splits)

lemma decode_InlD:
  assumes "decode obj checksum strict = Inl e"
    and "\<forall>s. to_bytes obj = Inr s \<longrightarrow> newline \<notin> set (transform s)"
  shows "normalize obj strict = Inl e \<or>
         (\<exists>t. normalize obj strict = Inr t \<and> checksum \<and>
              e = invalid_check_symbol (last t) (butlast t))"
proof (cases "normalize obj strict")
  case (Inl e')
  with assms(1) decode_normalize_error [OF Inl, of checksum] show ?thesis
    by simp
next
  case (Inr t)
  from normalize_InrD [OF Inr] assms(2) have nl: "newline \<notin> set t"
    by blast
  show ?thesis
  proof (cases checksum)
    case True
    with assms(1) decode_checksum_pattern [OF Inr nl] Inr show ?thesis
      by (auto split: if_splits)
  next
    case False
    with assms(1) decode_plain_pattern [OF Inr nl] show ?thesis
      by simp
  qed
qed

lemma class_of_errors:
  "class_of (not_positive n) = ValueError_class"
  "class_of (invalid_characters t) = ValueError_class"
  "class_of (requires_normalization s) = ValueError_class"
  "class_of (invalid_check_symbol c body) = ValueError_class"
  by (simp_all add: not_positive_def invalid_characters_def requires_normalization_def
      invalid_check_symbol_def)

lemma normalize_error_class:
  assumes "normalize obj strict = Inl e"
  shows "class_of e = (if (\<exists>cls. obj = Object cls) then TypeError_class else ValueError_class)"
  using normalize_InlD [OF assms]
  by (cases obj) (auto simp: class_of_errors to_bytes_def)

text \<open>
  C3, as amended: for an integer argument, every failure of \<open>encode\<close> is the
  negative-value error. For an input that is a byte string, a text or an object of
  another type (byte arrays apart), every failure of \<open>normalize\<close> is the invalid-type, the
  invalid-character or the requires-normalization error, and every failure of \<open>decode\<close>
  on such an input whose transformed string contains no line feed is one of these three
  or the check-symbol error. The kinds are not five classes of exception: the
  invalid-type error is a \<open>TypeError\<close>, the other four are all \<open>ValueError\<close>, and only the
  text of the message tells these four apart.
\<close>

theorem failures_by_class:
  "(encode n checksum = Inl e1 \<longrightarrow>
      n < 0 \<and> e1 = not_positive n \<and> class_of e1 = ValueError_class) \<and>
   (normalize obj strict = Inl e2 \<longrightarrow>
      ((\<exists>cls. obj = Object cls \<and>
              e2 = TypeError (''string should be bytes or ASCII, not '' @ cls)) \<or>
       (\<exists>u. obj = Unicode u \<and>
            e2 = ValueError ''string should only contain ASCII characters'') \<or>
       (\<exists>s. to_bytes obj = Inr s \<and>
            (e2 = invalid_characters (transform s) \<or>
             strict \<and> e2 = requires_normalization s))) \<and>
      class_of e2 = (if (\<exists>cls. obj = Object cls) then TypeError_class else ValueError_class)) \<and>
   (line_feed_free obj' \<and> decode obj' checksum' strict' = Inl e3 \<longrightarrow>
      (normalize obj' strict' = Inl e3 \<or>
       (\<exists>t. normalize obj' strict' = Inr t \<and> checksum' \<and>
            e3 = invalid_check_symbol (last t) (butlast t))) \<and>
      class_of e3 = (if (\<exists>cls. obj' = Object cls) then TypeError_class else ValueError_class))"
proof (intro conjI impI)
  assume "encode n checksum = Inl e1"
  from encode_InlD [OF this] show "n < 0" "e1 = not_positive n" "class_of e1 = ValueError_class"
    by (simp_all add: class_of_errors)
next
  assume a: "normalize obj strict = Inl e2"
  show "(\<exists>cls. obj = Object cls \<and>
              e2 = TypeError (''string should be bytes or ASCII, not '' @ cls)) \<or>
        (\<exists>u. obj = Unicode u \<and>
            e2 = ValueError ''string should only contain ASCII characters'') \<or>
        (\<exists>s. to_bytes obj = Inr s \<and>
            (e2 = invalid_characters (transform s) \<or>
             strict \<and> e2 = requires_normalization s))"
    by (rule normalize_InlD [OF a])
  show "class_of e2 = (if (\<exists>cls. obj = Object cls) then TypeError_class else ValueError_class)"
    by (rule normalize_error_class [OF a])
next
  assume a: "line_feed_free obj' \<and> decode obj' checksum' strict' = Inl e3"
  then have lf: "\<forall>s. to_bytes obj' = Inr s \<longrightarrow> newline \<notin> set (transform s)"
    by (auto simp: line_feed_free_def)
  from a have d: "decode obj' checksum' strict' = Inl e3"
    by simp
  show forms: "normalize obj' strict' = Inl e3 \<or>
        (\<exists>t. normalize obj' strict' = Inr t \<and> checksum' \<and>
             e3 = invalid_check_symbol (last t) (butlast t))"
    by (rule decode_InlD [OF d lf])
  show "class_of e3 = (if (\<exists>cls. obj' = Object cls) then TypeError_class else ValueError_class)"
  proof (cases "normalize obj' strict'")
    case (Inl e)
    with forms have "normalize obj' strict' = Inl e3"
      by auto
    then show ?thesis
      by (rule normalize_error_class)
  next
    case (Inr t)
    with forms have "e3 = invalid_check_symbol (last t) (butlast t)"
      by auto
    moreover from normalize_InrD [OF Inr] have "\<not> (\<exists>cls. obj' = Object cls)"
      by (auto simp: to_bytes_def)
    ultimately show ?thesis
      by (simp add: class_of_errors)
  qed
qed

theorem failures_by_class_witness:
  "encode (- 1) False = Inl (not_positive (- 1)) \<and>
   normalize (Object ''int'') False
     = Inl (TypeError ''string should be bytes or ASCII, not int'') \<and>
   class_of (TypeError ''string should be bytes or ASCII, not int'') = TypeError_class \<and>
   line_feed_free (Str ''01'') \<and>
   decode (Str ''01'') True False = Inl (invalid_check_symbol CHR ''1'' ''0'') \<and>
   class_of (invalid_check_symbol CHR ''1'' ''0'') = ValueError_class"
proof -
  have a: "encode (- 1) False = Inl (not_positive (- 1))"
    by (simp add: encode_def)
  have b: "normalize (Object ''int'') False
             = Inl (TypeError ''string should be bytes or ASCII, not int'')"
    by (simp add: normalize_def to_bytes_def)
  have c: "line_feed_free (Str ''01'')"
    by code_simp
  have d: "decode (Str ''01'') True False = Inl (invalid_check_symbol CHR ''1'' ''0'')"
    by code_simp
  from failures_by_class [of "- 1" False "not_positive (- 1)" "Object ''int''" False
      "TypeError ''string should be bytes or ASCII, not int''" "Str ''01''" True False
      "invalid_check_symbol CHR ''1'' ''0''"] a b c d
  show ?thesis
    by simp
qed

theorem failures_by_class_counterexample:
  "encode (- 1) False = Inl (not_positive (- 1)) \<and>
   decode (Str ''1!2'') False False = Inl (invalid_characters ''1!2'') \<and>
   decode (Str ''o'') False True = Inl (requires_normalization ''o'') \<and>
   decode (Str ''01'') True False = Inl (invalid_check_symbol CHR ''1'' ''0'') \<and>
   class_of (not_positive (- 1)) = ValueError_class \<and>
   class_of (invalid_characters ''1!2'') = ValueError_class \<and>
   class_of (requires_normalization ''o'') = ValueError_class \<and>
   class_of (invalid_check_symbol CHR ''1'' ''0'') = ValueError_class"
proof -
  have a: "encode (- 1) False = Inl (not_positive (- 1))"
    by (simp add: encode_def)
  have b: "decode (Str ''1!2'') False False = Inl (invalid_characters ''1!2'')"
    by code_simp
  have c: "decode (Str ''o'') False True = Inl (requires_normalization ''o'')"
    by code_simp
  have d: "decode (Str ''01'') True False = Inl (invalid_check_symbol CHR ''1'' ''0'')"
    by code_simp
  from a b c d show ?thesis
    by (simp add: class_of_errors)
qed

end
